theory Spec2Isabelle
  imports Main "HOL-Library.Char_ord" "HOL-Library.List_Lexorder"
begin

section \<open>Paths and the pathlib operations the scanner uses\<close>

text \<open>
  The scanner works on absolute POSIX paths (\<open>ScanOptions\<close> resolves its root, and every
  enumerated entry is a child of an enumerated directory). A path is the list of its
  components below the filesystem root \<open>/\<close>, which is the empty list; a component is a
  string of bytes. Python compares strings by code point and UTF-8 keeps that order, so the
  byte order of \<open>Char_ord\<close> is the order Python uses on names.
\<close>

type_synonym path = "string list"

text \<open>\<open>str(path)\<close>: the components joined by \<open>/\<close> behind a leading \<open>/\<close>.\<close>

definition path_str :: "path \<Rightarrow> string" where
  "path_str p = (if p = [] then ''/'' else concat (map (\<lambda>c. CHR ''/'' # c) p))"

text \<open>\<open>PurePath.name\<close>: the final component, the empty string for the root.\<close>

definition name :: "path \<Rightarrow> string" where
  "name p = (if p = [] then [] else last p)"

text \<open>
  \<open>PurePath.parents\<close>: the logical ancestors, nearest first, down to the filesystem root.
  \<open>Path('/a/b/c').parents\<close> is \<open>/a/b\<close>, \<open>/a\<close>, \<open>/\<close>.
\<close>

definition parents :: "path \<Rightarrow> path list" where
  "parents p = map (\<lambda>n. take n p) (rev [0..<length p])"

text \<open>\<open>str.startswith\<close>.\<close>

definition startswith :: "string \<Rightarrow> string \<Rightarrow> bool" where
  "startswith s pre = (take (length pre) s = pre)"

text \<open>\<open>str.rfind(c)\<close> for a single character: the highest index holding \<open>c\<close>, or \<open>-1\<close>.\<close>

fun rfind :: "string \<Rightarrow> char \<Rightarrow> int" where
  "rfind s c =
     (if s = [] then - 1
      else if last s = c then int (length s) - 1
      else rfind (butlast s) c)"

declare rfind.simps [simp del]

text \<open>
  \<open>PurePath.suffix\<close> as CPython defines it up to 3.13:
  \<^verbatim>\<open>
  name = self.name
  i = name.rfind('.')
  if 0 < i < len(name) - 1:
      return name[i:]
  else:
      return ''
  \<close>
\<close>

definition suffix :: "path \<Rightarrow> string" where
  "suffix p =
     (let nm = name p; i = rfind nm (CHR ''.'')
      in if 0 < i \<and> i < int (length nm) - 1 then drop (nat i) nm else [])"

text \<open>
  \<open>str.lower\<close>. On the ASCII range it maps \<open>A\<close>..\<open>Z\<close> to \<open>a\<close>..\<open>z\<close> and leaves every other
  byte alone. No character outside ASCII lowers to one of the letters of \<open>.yaml\<close> or
  \<open>.yml\<close>, so leaving the other bytes alone does not change the comparison the filter makes.
\<close>

definition ascii_uppercase :: string where
  "ascii_uppercase = ''ABCDEFGHIJKLMNOPQRSTUVWXYZ''"

definition ascii_lowercase :: string where
  "ascii_lowercase = ''abcdefghijklmnopqrstuvwxyz''"

definition lower_char :: "char \<Rightarrow> char" where
  "lower_char c = (case map_of (zip ascii_uppercase ascii_lowercase) c of Some d \<Rightarrow> d | None \<Rightarrow> c)"

definition lower :: "string \<Rightarrow> string" where
  "lower s = map lower_char s"

section \<open>filters.py\<close>

text \<open>\<^verbatim>\<open>return path.suffix.lower() in {".yaml", ".yml"}\<close>\<close>

definition is_yaml_file :: "path \<Rightarrow> bool" where
  "is_yaml_file p = (lower (suffix p) \<in> {''.yaml'', ''.yml''})"

text \<open>\<^verbatim>\<open>return path.name.startswith(".")\<close>\<close>

definition is_hidden_directory :: "path \<Rightarrow> bool" where
  "is_hidden_directory p = startswith (name p) ''.''"

section \<open>core.py: the data model\<close>

datatype output_format = Json | Human

datatype verbosity_level = Quiet | Info | Verbose

text \<open>
  \<open>ScanOptions\<close>. The field validator of \<open>input_dir\<close> runs when the options are built,
  before any scan; \<open>scan_directory\<close> itself only reads \<open>input_dir\<close> and \<open>recursive\<close>.
\<close>

record ScanOptions =
  input_dir :: path
  recursive :: bool
  format :: output_format
  verbosity :: verbosity_level

record ScanResult =
  files :: "path list"
  errors :: "(path \<times> string) list"

definition count :: "ScanResult \<Rightarrow> nat" where
  "count r = length (files r)"

definition has_errors :: "ScanResult \<Rightarrow> bool" where
  "has_errors r = (length (errors r) > 0)"

definition to_json_array :: "ScanResult \<Rightarrow> string list" where
  "to_json_array r = map path_str (files r)"

section \<open>The filesystem layer as the scanner sees it\<close>

text \<open>
  The exceptions of the filesystem calls, each carrying its \<open>str(e)\<close>. \<open>PermissionError\<close>
  is a subclass of \<open>OSError\<close> in Python; here \<open>OSError\<close> stands for the instances that are
  not a \<open>PermissionError\<close>, which is what the second \<open>except\<close> clause of the scanner gets.
  \<open>RuntimeError\<close> is the one exception outside \<open>OSError\<close> that pathlib raises on its own
  (\<open>resolve\<close> on a symlink loop, up to CPython 3.12); neither clause catches it.
\<close>

datatype exn = PermissionError string | OSError string | RuntimeError string

text \<open>
  What \<open>scan_directory\<close> calls on a \<open>Path\<close>. \<open>rglob("*")\<close> and \<open>iterdir()\<close> are generators:
  the entries they yield, in order, and then either the end of the iteration or an
  exception. The loop body touches nothing the generators read, so what a generator
  yields does not depend on how far the loop has got. The three tests on an entry return
  a value or raise.
\<close>

record platform =
  rglob :: "path \<Rightarrow> path list \<times> exn option"
  iterdir :: "path \<Rightarrow> path list \<times> exn option"
  is_symlink :: "path \<Rightarrow> exn + bool"
  is_file :: "path \<Rightarrow> exn + bool"
  resolve :: "path \<Rightarrow> exn + path"

section \<open>core.py: scan\_directory\<close>

text \<open>The two accumulators of the scan: \<open>seen_files\<close> and \<open>result.files\<close>.\<close>

type_synonym accumulator = "path set \<times> path list"

text \<open>
  \<^verbatim>\<open>
  resolved = item.resolve()
  if resolved not in seen_files:
      seen_files.add(resolved)
      result.files.append(resolved)
  \<close>
\<close>

definition add_resolved :: "platform \<Rightarrow> path \<Rightarrow> accumulator \<Rightarrow> exn + accumulator" where
  "add_resolved pf item acc =
     (case resolve pf item of
        Inl e \<Rightarrow> Inl e
      | Inr resolved \<Rightarrow>
          if resolved \<notin> fst acc then Inr (insert resolved (fst acc), snd acc @ [resolved])
          else Inr acc)"

text \<open>
  \<^verbatim>\<open>if item.is_file() and is_yaml_file(item): ...\<close>, the body of the non-recursive loop
  and the tail of the recursive one.
\<close>

definition flat_body :: "platform \<Rightarrow> path \<Rightarrow> accumulator \<Rightarrow> exn + accumulator" where
  "flat_body pf item acc =
     (case is_file pf item of
        Inl e \<Rightarrow> Inl e
      | Inr regular \<Rightarrow> if regular \<and> is_yaml_file item then add_resolved pf item acc else Inr acc)"

text \<open>
  \<^verbatim>\<open>
  if any(is_hidden_directory(parent) for parent in item.parents):
      continue
  if item.is_symlink():
      continue
  if item.is_file() and is_yaml_file(item): ...
  \<close>
\<close>

definition recursive_body :: "platform \<Rightarrow> path \<Rightarrow> accumulator \<Rightarrow> exn + accumulator" where
  "recursive_body pf item acc =
     (if list_ex is_hidden_directory (parents item) then Inr acc
      else case is_symlink pf item of
             Inl e \<Rightarrow> Inl e
           | Inr link \<Rightarrow> if link then Inr acc else flat_body pf item acc)"

text \<open>
  \<open>for item in generator: body\<close>. The loop ends when the generator is exhausted, when the
  generator raises, or when the body raises; the accumulators keep what was added before.
  The result is the accumulators and the exception that left the loop, if any.
\<close>

fun for_loop ::
  "(path \<Rightarrow> accumulator \<Rightarrow> exn + accumulator) \<Rightarrow> path list \<Rightarrow> exn option \<Rightarrow> accumulator
     \<Rightarrow> accumulator \<times> exn option" where
  "for_loop body [] stop acc = (acc, stop)"
| "for_loop body (item # items) stop acc =
     (case body item acc of
        Inl e \<Rightarrow> (acc, Some e)
      | Inr acc' \<Rightarrow> for_loop body items stop acc')"

text \<open>The \<open>try\<close> block: one of the two loops, from empty accumulators.\<close>

definition traverse :: "platform \<Rightarrow> ScanOptions \<Rightarrow> accumulator \<times> exn option" where
  "traverse pf options =
     (if recursive options
      then (case rglob pf (input_dir options) of
              (items, stop) \<Rightarrow> for_loop (recursive_body pf) items stop ({}, []))
      else (case iterdir pf (input_dir options) of
              (items, stop) \<Rightarrow> for_loop (flat_body pf) items stop ({}, [])))"

text \<open>
  The handlers, the sort and the return. \<open>Inl\<close> is an exception that leaves
  \<open>scan_directory\<close>. \<open>result.files.sort()\<close> orders \<open>Path\<close> objects by \<open>Path.__lt__\<close>, which
  compares the sequences of components; that is the order of \<open>List_Lexorder\<close> on
  \<open>path\<close>, component against component by \<open>Char_ord\<close>.
\<close>

definition scan_directory :: "platform \<Rightarrow> ScanOptions \<Rightarrow> exn + ScanResult" where
  "scan_directory pf options =
     (case traverse pf options of
        (acc, None) \<Rightarrow> Inr \<lparr>files = sort (snd acc), errors = []\<rparr>
      | (acc, Some (PermissionError m)) \<Rightarrow>
          Inr \<lparr>files = sort (snd acc),
               errors = [(input_dir options, ''Permission denied: '' @ m)]\<rparr>
      | (acc, Some (OSError m)) \<Rightarrow>
          Inr \<lparr>files = sort (snd acc),
               errors = [(input_dir options, ''OS error: '' @ m)]\<rparr>
      | (acc, Some (RuntimeError m)) \<Rightarrow> Inl (RuntimeError m))"

section \<open>A POSIX filesystem\<close>

text \<open>
  Directories form a tree (a directory has one parent); a symbolic link holds the absolute
  path it points to. In \<open>posix\<close> every directory can be listed; \<open>posix_denied\<close> below adds
  directories that cannot. Other failures of a real filesystem are covered by the theorems
  over an arbitrary \<open>platform\<close>.
\<close>

datatype node = File | Dir "(string \<times> node) list" | Symlink path

text \<open>The entry at a path of real components, no link followed.\<close>

fun entry_at :: "node \<Rightarrow> path \<Rightarrow> node option" where
  "entry_at n [] = Some n"
| "entry_at (Dir es) (c # cs) = (case map_of es c of None \<Rightarrow> None | Some n \<Rightarrow> entry_at n cs)"
| "entry_at File (c # cs) = None"
| "entry_at (Symlink t) (c # cs) = None"

text \<open>
  Path resolution as the kernel does it: component by component from the root, a symbolic
  link replaced by its target, at most \<open>MAXSYMLINKS\<close> links in one resolution (40 on Linux;
  beyond that the call fails with \<open>ELOOP\<close>). \<open>cur\<close> is the canonical path reached so far.
\<close>

definition MAXSYMLINKS :: nat where
  "MAXSYMLINKS = 40"

fun follow :: "node \<Rightarrow> nat \<Rightarrow> path \<Rightarrow> path \<Rightarrow> path option" where
  "follow fs k cur [] = Some cur"
| "follow fs k cur (c # rest) =
     (case entry_at fs (cur @ [c]) of
        None \<Rightarrow> None
      | Some (Symlink t) \<Rightarrow> (case k of 0 \<Rightarrow> None | Suc k' \<Rightarrow> follow fs k' [] (t @ rest))
      | Some File \<Rightarrow> follow fs k (cur @ [c]) rest
      | Some (Dir es) \<Rightarrow> follow fs k (cur @ [c]) rest)"

definition realpath :: "node \<Rightarrow> path \<Rightarrow> path option" where
  "realpath fs p = follow fs MAXSYMLINKS [] p"

text \<open>\<open>os.stat\<close> follows a link in the last component, \<open>os.lstat\<close> does not.\<close>

definition stat :: "node \<Rightarrow> path \<Rightarrow> node option" where
  "stat fs p = (case realpath fs p of None \<Rightarrow> None | Some q \<Rightarrow> entry_at fs q)"

definition lstat :: "node \<Rightarrow> path \<Rightarrow> node option" where
  "lstat fs p =
     (if p = [] then Some fs
      else case realpath fs (butlast p) of
             None \<Rightarrow> None
           | Some d \<Rightarrow> entry_at fs (d @ [last p]))"

text \<open>
  \<open>Path.is_symlink\<close> and \<open>Path.is_file\<close> answer \<open>False\<close> where the lookup fails with a
  missing entry, a non-directory on the way or a link loop.
\<close>

definition is_symlink_fs :: "node \<Rightarrow> path \<Rightarrow> bool" where
  "is_symlink_fs fs p = (case lstat fs p of Some (Symlink t) \<Rightarrow> True | _ \<Rightarrow> False)"

definition is_file_fs :: "node \<Rightarrow> path \<Rightarrow> bool" where
  "is_file_fs fs p = (case stat fs p of Some File \<Rightarrow> True | _ \<Rightarrow> False)"

text \<open>
  \<open>Path.resolve()\<close>. Where the path names an existing entry it is the canonical path.
  Where it does not, the model raises \<open>RuntimeError\<close>, as pathlib does on a link loop up to
  CPython 3.12: the harshest answer for a caller that catches \<open>OSError\<close> only.
\<close>

definition resolve_fs :: "node \<Rightarrow> path \<Rightarrow> exn + path" where
  "resolve_fs fs p =
     (case realpath fs p of
        None \<Rightarrow> Inl (RuntimeError ''Symlink loop'')
      | Some q \<Rightarrow> Inr q)"

text \<open>
  \<open>root.iterdir()\<close>: the direct children, or the \<open>OSError\<close> of listing what is not a
  directory.
\<close>

definition iterdir_fs :: "node \<Rightarrow> path \<Rightarrow> path list \<times> exn option" where
  "iterdir_fs fs root =
     (case stat fs root of
        Some (Dir es) \<Rightarrow> (map (\<lambda>e. root @ [fst e]) es, None)
      | Some File \<Rightarrow> ([], Some (OSError ''Not a directory''))
      | Some (Symlink t) \<Rightarrow> ([], Some (OSError ''Not a directory''))
      | None \<Rightarrow> ([], Some (OSError ''No such file or directory'')))"

text \<open>
  \<open>root.rglob("*")\<close>: every entry of the directory, then, for each entry that is a
  directory and not a symbolic link, the same below it. pathlib never descends through a
  symbolic link here, and the pattern \<open>*\<close> matches dot names too.
\<close>

fun rglob_node :: "path \<Rightarrow> node \<Rightarrow> path list" where
  "rglob_node d (Dir es) =
     map (\<lambda>e. d @ [fst e]) es @ concat (map (\<lambda>e. rglob_node (d @ [fst e]) (snd e)) es)"
| "rglob_node d File = []"
| "rglob_node d (Symlink t) = []"

definition rglob_fs :: "node \<Rightarrow> path \<Rightarrow> path list \<times> exn option" where
  "rglob_fs fs root = (case stat fs root of None \<Rightarrow> ([], None) | Some n \<Rightarrow> (rglob_node root n, None))"

definition posix :: "node \<Rightarrow> platform" where
  "posix fs =
     \<lparr>rglob = rglob_fs fs,
      iterdir = iterdir_fs fs,
      is_symlink = (\<lambda>p. Inr (is_symlink_fs fs p)),
      is_file = (\<lambda>p. Inr (is_file_fs fs p)),
      resolve = resolve_fs fs\<rparr>"

text \<open>
  Directories without read permission. \<open>denied\<close> lists the directories that cannot be
  listed (their search permission is kept, so an entry below is still reached by name).
  Listing one fails with \<open>EACCES\<close>, a \<open>PermissionError\<close> whose text names the directory.
\<close>

definition listing_denied :: "path \<Rightarrow> exn" where
  "listing_denied d =
     PermissionError (''[Errno 13] Permission denied: '' @ [CHR 0x27] @ path_str d @ [CHR 0x27])"

text \<open>\<open>root.iterdir()\<close> lets the failure of the listing through.\<close>

definition iterdir_denied :: "node \<Rightarrow> path list \<Rightarrow> path \<Rightarrow> path list \<times> exn option" where
  "iterdir_denied fs denied root =
     (case stat fs root of
        Some (Dir es) \<Rightarrow>
          if root \<in> set denied then ([], Some (listing_denied root))
          else (map (\<lambda>e. root @ [fst e]) es, None)
      | Some File \<Rightarrow> ([], Some (OSError ''Not a directory''))
      | Some (Symlink t) \<Rightarrow> ([], Some (OSError ''Not a directory''))
      | None \<Rightarrow> ([], Some (OSError ''No such file or directory'')))"

text \<open>
  \<open>root.rglob("*")\<close> does not: where a directory cannot be listed, pathlib catches the
  \<open>PermissionError\<close> itself (\<^verbatim>\<open>except PermissionError: return\<close> in CPython 3.11, \<^verbatim>\<open>except
  OSError: pass\<close> from 3.12 on) and yields nothing for that directory. The directory itself
  is still an entry of its parent.
\<close>

fun rglob_denied :: "path list \<Rightarrow> path \<Rightarrow> node \<Rightarrow> path list" where
  "rglob_denied denied d (Dir es) =
     (if d \<in> set denied then []
      else map (\<lambda>e. d @ [fst e]) es
           @ concat (map (\<lambda>e. rglob_denied denied (d @ [fst e]) (snd e)) es))"
| "rglob_denied denied d File = []"
| "rglob_denied denied d (Symlink t) = []"

definition rglob_fs_denied :: "node \<Rightarrow> path list \<Rightarrow> path \<Rightarrow> path list \<times> exn option" where
  "rglob_fs_denied fs denied root =
     (case stat fs root of None \<Rightarrow> ([], None) | Some n \<Rightarrow> (rglob_denied denied root n, None))"

definition posix_denied :: "node \<Rightarrow> path list \<Rightarrow> platform" where
  "posix_denied fs denied =
     \<lparr>rglob = rglob_fs_denied fs denied,
      iterdir = iterdir_denied fs denied,
      is_symlink = (\<lambda>p. Inr (is_symlink_fs fs p)),
      is_file = (\<lambda>p. Inr (is_file_fs fs p)),
      resolve = resolve_fs fs\<rparr>"

text \<open>
  The field validator of \<open>ScanOptions.input_dir\<close>, on this filesystem:
  \<^verbatim>\<open>
  if not v.exists():
      raise ValueError(f"Directory does not exist: {v}")
  if not v.is_dir():
      raise ValueError(f"Path is not a directory: {v}")
  return v.resolve()
  \<close>
  \<open>exists\<close> and \<open>is_dir\<close> follow links. \<open>Inl\<close> is the exception that \<open>ScanOptions(...)\<close>
  raises: the \<open>ValueError\<close> of the validator, or what \<open>resolve\<close> raised.
\<close>

datatype validation_error = ValueError string | Raised exn

definition validate_directory_exists :: "node \<Rightarrow> path \<Rightarrow> validation_error + path" where
  "validate_directory_exists fs v =
     (case stat fs v of
        None \<Rightarrow> Inl (ValueError (''Directory does not exist: '' @ path_str v))
      | Some File \<Rightarrow> Inl (ValueError (''Path is not a directory: '' @ path_str v))
      | Some (Symlink t) \<Rightarrow> Inl (ValueError (''Path is not a directory: '' @ path_str v))
      | Some (Dir es) \<Rightarrow>
          (case resolve_fs fs v of Inl e \<Rightarrow> Inl (Raised e) | Inr q \<Rightarrow> Inr q))"

section \<open>Conditions on the filesystem layer and example inputs\<close>

text \<open>The exceptions that are a \<open>PermissionError\<close> or another \<open>OSError\<close>.\<close>

definition os_level_exn :: "exn \<Rightarrow> bool" where
  "os_level_exn e = (case e of PermissionError m \<Rightarrow> True | OSError m \<Rightarrow> True | RuntimeError m \<Rightarrow> False)"


text \<open>Options for the root \<open>/srv\<close>, as \<open>ScanOptions\<close> builds them with its defaults.\<close>

definition srv_options :: "bool \<Rightarrow> ScanOptions" where
  "srv_options rec = \<lparr>input_dir = [''srv''], recursive = rec, format = Human, verbosity = Info\<rparr>"

text \<open>
  A listing that yields three entries and then fails with an I/O error; the second entry
  cannot be examined (\<open>is_file\<close> raises \<open>PermissionError\<close> on it).
\<close>

definition failing_listing :: platform where
  "failing_listing =
     \<lparr>rglob = (\<lambda>p. ([p @ [''b.yml''], p @ [''locked.yaml''], p @ [''a.yaml'']],
                     Some (OSError ''[Errno 5] Input/output error''))),
      iterdir = (\<lambda>p. ([p @ [''b.yml''], p @ [''a.yaml''], p @ [''b.yml'']],
                       Some (OSError ''[Errno 5] Input/output error''))),
      is_symlink = (\<lambda>p. Inr False),
      is_file = (\<lambda>p. if name p = ''locked.yaml''
                       then Inl (PermissionError ''[Errno 13] Permission denied'') else Inr True),
      resolve = (\<lambda>p. Inr p)\<rparr>"

text \<open>
  \<open>/srv\<close> with a file, a subdirectory holding a link back to \<open>/srv\<close>, and a link to \<open>/srv\<close>
  itself: every path \<open>/srv/self/self/...\<close> and \<open>/srv/sub/back/sub/back/...\<close> exists.
\<close>

definition fs_cycle :: node where
  "fs_cycle =
     Dir [(''srv'', Dir [(''app.yaml'', File),
                         (''sub'', Dir [(''back'', Symlink [''srv'']), (''deep.yml'', File)]),
                         (''self'', Symlink [''srv''])])]"

text \<open>\<open>/srv\<close> with a directory \<open>app\<close> beside a file whose name starts with \<open>app-\<close>.\<close>

definition fs_dash :: node where
  "fs_dash =
     Dir [(''srv'', Dir [(''app'', Dir [(''x.yaml'', File)]),
                         (''app-1.yaml'', File)])]"

text \<open>A scan root below a hidden directory: \<open>/home/u/.cfg\<close>.\<close>

definition fs_hidden_root :: node where
  "fs_hidden_root =
     Dir [(''home'', Dir [(''u'', Dir [(''.cfg'', Dir [(''app.yaml'', File),
                                                        (''envs'', Dir [(''prod.yml'', File)])])])])]"

definition hidden_root_options :: "bool \<Rightarrow> ScanOptions" where
  "hidden_root_options rec =
     \<lparr>input_dir = [''home'', ''u'', ''.cfg''], recursive = rec, format = Human, verbosity = Info\<rparr>"


text \<open>\<open>/srv\<close> with a file named \<open>.yaml\<close> and a link \<open>settings.yaml\<close> to it.\<close>

definition fs_dotfile :: node where
  "fs_dotfile =
     Dir [(''srv'', Dir [(''.yaml'', File),
                         (''settings.yaml'', Symlink [''srv'', ''.yaml''])])]"

text \<open>A filesystem in which no directory lists a name twice.\<close>

fun wf_node :: "node \<Rightarrow> bool" where
  "wf_node (Dir es) = (distinct (map fst es) \<and> (\<forall>e\<in>set es. wf_node (snd e)))"
| "wf_node File = True"
| "wf_node (Symlink t) = True"

section \<open>Properties of the filters\<close>

subsection \<open>Auxiliary facts about \<open>rfind\<close> and \<open>lower\<close>\<close>

lemma rfind_last_occurrence:
  "c \<notin> set e \<Longrightarrow> rfind (stem @ c # e) c = int (length stem)"
proof (induction e rule: rev_induct)
  case Nil then show ?case by (subst rfind.simps) simp
next
  case (snoc x xs)
  have "rfind (stem @ c # xs @ [x]) c = rfind (butlast (stem @ c # xs @ [x])) c"
    using snoc.prems by (subst rfind.simps) auto
  also have "butlast (stem @ c # xs @ [x]) = stem @ c # xs"
    by (simp add: butlast_append)
  finally show ?case using snoc by simp
qed

lemma lower_char_dot: "lower_char c = CHR ''.'' \<longleftrightarrow> c = CHR ''.''"
  by (auto simp: lower_char_def ascii_uppercase_def ascii_lowercase_def split: option.splits if_splits)

lemma lower_char_dot_self: "lower_char (CHR ''.'') = CHR ''.''"
  using lower_char_dot [of "CHR ''.''"] by simp

lemma lower_no_dot: "lower e \<in> {''yaml'', ''yml''} \<Longrightarrow> CHR ''.'' \<notin> set e"
proof
  assume a: "lower e \<in> {''yaml'', ''yml''}" and "CHR ''.'' \<in> set e"
  then have "lower_char (CHR ''.'') \<in> set (lower e)" by (auto simp: lower_def)
  then have "CHR ''.'' \<in> set (lower e)" by (simp add: lower_char_dot_self)
  with a show False by auto
qed

lemma is_yaml_file_iff:
  "is_yaml_file p \<longleftrightarrow>
     (\<exists>stem e. name p = stem @ CHR ''.'' # e \<and> stem \<noteq> [] \<and> lower e \<in> {''yaml'', ''yml''})"
proof
  assume y: "is_yaml_file p"
  define nm where "nm = name p"
  define i where "i = rfind nm (CHR ''.'')"
  have sfx: "suffix p = (if 0 < i \<and> i < int (length nm) - 1 then drop (nat i) nm else [])"
    by (simp add: suffix_def Let_def nm_def i_def)
  from y have ne: "suffix p \<noteq> []" by (auto simp: is_yaml_file_def lower_def)
  with sfx have rng: "0 < i" "i < int (length nm) - 1" by (auto split: if_splits)
  with sfx have d: "suffix p = drop (nat i) nm" by simp
  from y d have l: "lower (drop (nat i) nm) \<in> {''.yaml'', ''.yml''}" by (simp add: is_yaml_file_def)
  then obtain x e where xe: "drop (nat i) nm = x # e" by (cases "drop (nat i) nm") (auto simp: lower_def)
  with l have "lower_char x = CHR ''.''" and le: "lower e \<in> {''yaml'', ''yml''}" by (auto simp: lower_def)
  then have "x = CHR ''.''" by (simp add: lower_char_dot)
  with xe have "nm = take (nat i) nm @ CHR ''.'' # e" by (metis append_take_drop_id)
  moreover have "take (nat i) nm \<noteq> []" using rng by auto
  ultimately show "\<exists>stem e. name p = stem @ CHR ''.'' # e \<and> stem \<noteq> [] \<and> lower e \<in> {''yaml'', ''yml''}"
    using le unfolding nm_def by blast
next
  assume "\<exists>stem e. name p = stem @ CHR ''.'' # e \<and> stem \<noteq> [] \<and> lower e \<in> {''yaml'', ''yml''}"
  then obtain stem e where n: "name p = stem @ CHR ''.'' # e" and s: "stem \<noteq> []"
    and le: "lower e \<in> {''yaml'', ''yml''}" by blast
  from le have "CHR ''.'' \<notin> set e" by (rule lower_no_dot)
  then have r: "rfind (name p) (CHR ''.'') = int (length stem)" by (simp add: n rfind_last_occurrence)
  from le have "e \<noteq> []" by (auto simp: lower_def)
  with s have "suffix p = CHR ''.'' # e"
    by (simp add: suffix_def Let_def r) (simp add: n)
  moreover note lower_char_dot_self
  ultimately show "is_yaml_file p" using le by (auto simp: is_yaml_file_def lower_def)
qed

text \<open>
  C4. \<open>is_yaml_file\<close> is true exactly when the final component of the path is a non-empty
  stem followed by a dot and an extension without further dot that lower-cases to \<open>yaml\<close>
  or \<open>yml\<close>. \<open>app.YAML\<close>, \<open>app.Yml\<close> and \<open>app.yaml\<close> qualify, \<open>app.yamlx\<close> and \<open>app.json\<close> do
  not. The function receives the path alone: it has no access to any file content.
\<close>

theorem is_yaml_file_extension:
  "(is_yaml_file p \<longleftrightarrow>
      (\<exists>stem e. name p = stem @ CHR ''.'' # e \<and> stem \<noteq> [] \<and> lower e \<in> {''yaml'', ''yml''}))
   \<and> is_yaml_file [''srv'', ''app.YAML'']
   \<and> is_yaml_file [''srv'', ''app.Yml'']
   \<and> is_yaml_file [''srv'', ''app.yaml'']
   \<and> \<not> is_yaml_file [''srv'', ''app.yamlx'']
   \<and> \<not> is_yaml_file [''srv'', ''app.json'']"
proof -
  have "is_yaml_file [''srv'', ''app.YAML'']" by code_simp
  moreover have "is_yaml_file [''srv'', ''app.Yml'']" by code_simp
  moreover have "is_yaml_file [''srv'', ''app.yaml'']" by code_simp
  moreover have "\<not> is_yaml_file [''srv'', ''app.yamlx'']" by code_simp
  moreover have "\<not> is_yaml_file [''srv'', ''app.json'']" by code_simp
  ultimately show ?thesis using is_yaml_file_iff [of p] by blast
qed

section \<open>Properties of the scan loop\<close>

lemma add_resolved_step:
  assumes "add_resolved pf item acc = Inr acc'"
  shows "acc' = acc \<or> (\<exists>q. resolve pf item = Inr q \<and> q \<notin> fst acc \<and> acc' = (insert q (fst acc), snd acc @ [q]))"
  using assms by (auto simp: add_resolved_def split: sum.splits if_splits)

lemma flat_body_step:
  assumes "flat_body pf item acc = Inr acc'"
  shows "acc' = acc \<or>
    (\<exists>q. q \<notin> fst acc \<and> acc' = (insert q (fst acc), snd acc @ [q]) \<and>
         is_file pf item = Inr True \<and> is_yaml_file item \<and> resolve pf item = Inr q)"
  using assms add_resolved_step [of pf item acc acc']
  by (auto simp: flat_body_def split: sum.splits if_splits)

lemma recursive_body_step:
  assumes "recursive_body pf item acc = Inr acc'"
  shows "acc' = acc \<or>
    (\<exists>q. q \<notin> fst acc \<and> acc' = (insert q (fst acc), snd acc @ [q]) \<and>
         \<not> list_ex is_hidden_directory (parents item) \<and> is_symlink pf item = Inr False \<and>
         is_file pf item = Inr True \<and> is_yaml_file item \<and> resolve pf item = Inr q)"
  using assms flat_body_step [of pf item acc acc']
  by (auto simp: recursive_body_def split: sum.splits if_splits)

lemma for_loop_invariant:
  assumes step: "\<And>item acc acc'. body item acc = Inr acc' \<Longrightarrow>
      acc' = acc \<or> (\<exists>q. q \<notin> fst acc \<and> acc' = (insert q (fst acc), snd acc @ [q]) \<and> P item q)"
    and run: "for_loop body items stop acc = (acc', r)"
    and inv: "fst acc = set (snd acc)" "distinct (snd acc)"
  shows "fst acc' = set (snd acc') \<and> distinct (snd acc') \<and>
         (\<forall>q\<in>set (snd acc'). q \<in> set (snd acc) \<or> (\<exists>item\<in>set items. P item q))"
  using run inv
proof (induction items arbitrary: acc)
  case Nil
  then show ?case by simp
next
  case (Cons item items)
  show ?case
  proof (cases "body item acc")
    case (Inl e)
    with Cons.prems show ?thesis by simp
  next
    case (Inr acc1)
    with Cons.prems have run1: "for_loop body items stop acc1 = (acc', r)" by simp
    from step [OF Inr] consider "acc1 = acc"
      | q where "q \<notin> fst acc" "acc1 = (insert q (fst acc), snd acc @ [q])" "P item q" by blast
    then show ?thesis
    proof cases
      case 1
      with Cons.IH [OF run1] Cons.prems show ?thesis by auto
    next
      case 2
      then have "fst acc1 = set (snd acc1)" "distinct (snd acc1)"
        using Cons.prems by auto
      from Cons.IH [OF run1 this] 2 show ?thesis by auto
    qed
  qed
qed

lemma for_loop_exception:
  assumes "for_loop body items stop acc = (acc', Some e)"
  shows "stop = Some e \<or> (\<exists>item\<in>set items. \<exists>a. body item a = Inl e)"
  using assms
proof (induction items arbitrary: acc)
  case Nil then show ?case by simp
next
  case (Cons item items)
  show ?case
  proof (cases "body item acc")
    case (Inl e')
    with Cons.prems have "e' = e" by simp
    with Inl have "\<exists>a. body item a = Inl e" by blast
    then show ?thesis by simp
  next
    case (Inr acc1)
    with Cons.prems have "for_loop body items stop acc1 = (acc', Some e)" by simp
    from Cons.IH [OF this] show ?thesis by auto
  qed
qed



subsection \<open>The traversal as a whole\<close>

lemma traverse_invariant:
  assumes "traverse pf opts = (acc, r)"
  shows "fst acc = set (snd acc) \<and> distinct (snd acc)"
proof (cases "recursive opts")
  case True
  obtain items stop where e: "rglob pf (input_dir opts) = (items, stop)" by (cases "rglob pf (input_dir opts)")
  with True assms have run: "for_loop (recursive_body pf) items stop ({}, []) = (acc, r)"
    by (simp add: traverse_def)
  from for_loop_invariant [where body = "recursive_body pf" and P = "\<lambda>_ _. True", OF _ run]
  show ?thesis using recursive_body_step [of pf] by fastforce
next
  case False
  obtain items stop where e: "iterdir pf (input_dir opts) = (items, stop)" by (cases "iterdir pf (input_dir opts)")
  with False assms have run: "for_loop (flat_body pf) items stop ({}, []) = (acc, r)"
    by (simp add: traverse_def)
  from for_loop_invariant [where body = "flat_body pf" and P = "\<lambda>_ _. True", OF _ run]
  show ?thesis using flat_body_step [of pf] by fastforce
qed

lemma traverse_provenance_flat:
  assumes "\<not> recursive opts" "traverse pf opts = (acc, r)" "q \<in> set (snd acc)"
  shows "\<exists>item\<in>set (fst (iterdir pf (input_dir opts))).
           is_file pf item = Inr True \<and> is_yaml_file item \<and> resolve pf item = Inr q"
proof -
  obtain items stop where e: "iterdir pf (input_dir opts) = (items, stop)" by (cases "iterdir pf (input_dir opts)")
  with assms have run: "for_loop (flat_body pf) items stop ({}, []) = (acc, r)"
    by (simp add: traverse_def)
  have "\<forall>q\<in>set (snd acc). q \<in> set (snd ({}, [])) \<or>
          (\<exists>item\<in>set items. is_file pf item = Inr True \<and> is_yaml_file item \<and> resolve pf item = Inr q)"
    using for_loop_invariant [where body = "flat_body pf"
        and P = "\<lambda>item q. is_file pf item = Inr True \<and> is_yaml_file item \<and> resolve pf item = Inr q",
        OF _ run] flat_body_step [of pf] by fastforce
  with assms(3) e show ?thesis by auto
qed

lemma traverse_provenance_recursive:
  assumes "recursive opts" "traverse pf opts = (acc, r)" "q \<in> set (snd acc)"
  shows "\<exists>item\<in>set (fst (rglob pf (input_dir opts))).
           \<not> list_ex is_hidden_directory (parents item) \<and> is_symlink pf item = Inr False \<and>
           is_file pf item = Inr True \<and> is_yaml_file item \<and> resolve pf item = Inr q"
proof -
  obtain items stop where e: "rglob pf (input_dir opts) = (items, stop)" by (cases "rglob pf (input_dir opts)")
  with assms have run: "for_loop (recursive_body pf) items stop ({}, []) = (acc, r)"
    by (simp add: traverse_def)
  have "\<forall>q\<in>set (snd acc). q \<in> set (snd ({}, [])) \<or>
          (\<exists>item\<in>set items. \<not> list_ex is_hidden_directory (parents item) \<and> is_symlink pf item = Inr False \<and>
           is_file pf item = Inr True \<and> is_yaml_file item \<and> resolve pf item = Inr q)"
    using for_loop_invariant [where body = "recursive_body pf"
        and P = "\<lambda>item q. \<not> list_ex is_hidden_directory (parents item) \<and> is_symlink pf item = Inr False \<and>
           is_file pf item = Inr True \<and> is_yaml_file item \<and> resolve pf item = Inr q",
        OF _ run] recursive_body_step [of pf] by fastforce
  with assms(3) e show ?thesis by auto
qed

lemma scan_directory_files:
  assumes "scan_directory pf opts = Inr r"
  shows "files r = sort (snd (fst (traverse pf opts)))"
  using assms
  by (auto simp: scan_directory_def split: prod.splits option.splits exn.splits)





lemma traverse_eq:
  "traverse pf opts =
     for_loop (if recursive opts then recursive_body pf else flat_body pf)
       (fst (if recursive opts then rglob pf (input_dir opts) else iterdir pf (input_dir opts)))
       (snd (if recursive opts then rglob pf (input_dir opts) else iterdir pf (input_dir opts)))
       ({}, [])"
  by (simp add: traverse_def split: prod.splits)




lemma scan_directory_returns:
  assumes "\<And>acc e. traverse pf opts = (acc, Some e) \<Longrightarrow> os_level_exn e"
  shows "\<exists>r. scan_directory pf opts = Inr r"
proof -
  obtain acc x where t: "traverse pf opts = (acc, x)" by (cases "traverse pf opts")
  show ?thesis
  proof (cases x)
    case None
    with t show ?thesis by (simp add: scan_directory_def)
  next
    case (Some e)
    with t assms have "os_level_exn e" by blast
    with t Some show ?thesis
      by (cases e) (simp_all add: scan_directory_def os_level_exn_def)
  qed
qed

subsection \<open>The scan on the POSIX filesystem\<close>

lemma posix_flat_body_total: "\<exists>a'. flat_body (posix fs) item a = Inr a'"
  by (auto simp: flat_body_def add_resolved_def posix_def is_file_fs_def stat_def resolve_fs_def
      split: option.splits node.splits)

lemma posix_recursive_body_total: "\<exists>a'. recursive_body (posix fs) item a = Inr a'"
  using posix_flat_body_total [of fs item a]
  by (auto simp: recursive_body_def posix_def)

lemma posix_traverse_stop:
  assumes "traverse (posix fs) opts = (acc, Some e)"
  shows "\<not> recursive opts \<and> snd (iterdir_fs fs (input_dir opts)) = Some e"
proof (cases "recursive opts")
  case True
  with assms have "for_loop (recursive_body (posix fs)) (fst (rglob_fs fs (input_dir opts)))
      (snd (rglob_fs fs (input_dir opts))) ({}, []) = (acc, Some e)"
    by (simp add: traverse_eq posix_def)
  from for_loop_exception [OF this] posix_recursive_body_total [of fs]
  have "snd (rglob_fs fs (input_dir opts)) = Some e" by (metis sum.distinct(1))
  then show ?thesis by (simp add: rglob_fs_def split: option.splits)
next
  case False
  with assms have "for_loop (flat_body (posix fs)) (fst (iterdir_fs fs (input_dir opts)))
      (snd (iterdir_fs fs (input_dir opts))) ({}, []) = (acc, Some e)"
    by (simp add: traverse_eq posix_def)
  from for_loop_exception [OF this] posix_flat_body_total [of fs]
  have "snd (iterdir_fs fs (input_dir opts)) = Some e" by (metis sum.distinct(1))
  with False show ?thesis by simp
qed

lemma posix_scan_returns: "\<exists>r. scan_directory (posix fs) opts = Inr r"
proof (rule scan_directory_returns)
  fix acc e
  assume "traverse (posix fs) opts = (acc, Some e)"
  from posix_traverse_stop [OF this] show "os_level_exn e"
    by (auto simp: iterdir_fs_def os_level_exn_def split: option.splits node.splits)
qed

subsection \<open>Entries, path resolution and enumeration on the POSIX filesystem\<close>

lemma entry_at_append:
  "entry_at n (xs @ ys) = (case entry_at n xs of None \<Rightarrow> None | Some m \<Rightarrow> entry_at m ys)"
proof (induction n xs rule: entry_at.induct)
  case (2 es c cs)
  then show ?case by (cases "map_of es c") auto
qed auto

lemma entry_at_prefix_dir:
  assumes "entry_at n rel = Some x" and "k < length rel"
  shows "\<exists>es. entry_at n (take k rel) = Some (Dir es)"
proof -
  have rel: "rel = take k rel @ drop k rel" by simp
  from assms(2) obtain c cs where d: "drop k rel = c # cs" by (cases "drop k rel") auto
  from assms(1) rel d have "(case entry_at n (take k rel) of None \<Rightarrow> None | Some m \<Rightarrow> entry_at m (c # cs)) = Some x"
    by (metis entry_at_append)
  then obtain m where m: "entry_at n (take k rel) = Some m" and "entry_at m (c # cs) = Some x"
    by (auto split: option.splits)
  then show ?thesis by (cases m) auto
qed

lemma follow_real:
  assumes "entry_at fs (cur @ rel) = Some x" and "\<And>t. x \<noteq> Symlink t"
  shows "follow fs k cur rel = Some (cur @ rel)"
  using assms(1)
proof (induction rel arbitrary: cur)
  case Nil
  then show ?case by simp
next
  case (Cons c rest)
  from Cons.prems have e: "entry_at fs ((cur @ [c]) @ rest) = Some x" by simp
  from Cons.IH [OF e] have ih: "follow fs k (cur @ [c]) rest = Some (cur @ c # rest)" by simp
  from e obtain y where y: "entry_at fs (cur @ [c]) = Some y" and yx: "entry_at y rest = Some x"
    unfolding entry_at_append [of fs "cur @ [c]" rest] by (auto split: option.splits)
  have "\<And>t. y \<noteq> Symlink t"
  proof
    fix t assume "y = Symlink t"
    with yx assms(2) show False by (cases rest) auto
  qed
  with y ih show ?case by (cases y) auto
qed

lemma follow_mono:
  assumes "follow fs k cur xs = Some d" and "k \<le> k'"
  shows "follow fs k' cur xs = Some d"
  using assms
proof (induction fs k cur xs arbitrary: k' rule: follow.induct)
  case (1 fs k cur)
  then show ?case by simp
next
  case (2 fs k cur c rest)
  show ?case
  proof (cases "entry_at fs (cur @ [c])")
    case None
    with "2.prems" show ?thesis by simp
  next
    case (Some y)
    show ?thesis
    proof (cases y)
      case File
      with Some "2.prems"(1) have "follow fs k (cur @ [c]) rest = Some d" by simp
      with Some File "2.IH" "2.prems"(2) have "follow fs k' (cur @ [c]) rest = Some d" by blast
      with Some File show ?thesis by simp
    next
      case (Dir es)
      with Some "2.prems"(1) have "follow fs k (cur @ [c]) rest = Some d" by simp
      with Some Dir "2.IH" "2.prems"(2) have "follow fs k' (cur @ [c]) rest = Some d" by blast
      with Some Dir show ?thesis by simp
    next
      case (Symlink t)
      with Some "2.prems"(1) obtain j where j: "k = Suc j" and f: "follow fs j [] (t @ rest) = Some d"
        by (cases k) auto
      from j "2.prems"(2) obtain j' where j': "k' = Suc j'" and le: "j \<le> j'" by (cases k') auto
      from Some Symlink j f le "2.IH" have "follow fs j' [] (t @ rest) = Some d" by blast
      with Some Symlink j' show ?thesis by simp
    qed
  qed
qed

lemma follow_split:
  assumes "follow fs k cur zs = Some q" and "zs = xs @ ys"
  shows "\<exists>d j. j \<le> k \<and> follow fs k cur xs = Some d \<and> follow fs j d ys = Some q"
  using assms
proof (induction fs k cur zs arbitrary: xs rule: follow.induct)
  case (1 fs k cur)
  then show ?case by auto
next
  case (2 fs k cur c rest)
  show ?case
  proof (cases xs)
    case Nil
    with "2.prems" have "follow fs k cur ys = Some q" by simp
    with Nil show ?thesis by (auto intro!: exI [of _ cur] exI [of _ k])
  next
    case (Cons c' xs')
    with "2.prems"(2) have c: "c' = c" and rest: "rest = xs' @ ys" by auto
    show ?thesis
    proof (cases "entry_at fs (cur @ [c])")
      case None
      with "2.prems"(1) show ?thesis by simp
    next
      case (Some y)
      show ?thesis
      proof (cases y)
        case File
        with Some "2.prems"(1) have "follow fs k (cur @ [c]) rest = Some q" by simp
        with Some File rest "2.IH"
        have "\<exists>d j. j \<le> k \<and> follow fs k (cur @ [c]) xs' = Some d \<and> follow fs j d ys = Some q"
          by blast
        with Some File Cons c show ?thesis by auto
      next
        case (Dir es)
        with Some "2.prems"(1) have "follow fs k (cur @ [c]) rest = Some q" by simp
        with Some Dir rest "2.IH"
        have "\<exists>d j. j \<le> k \<and> follow fs k (cur @ [c]) xs' = Some d \<and> follow fs j d ys = Some q"
          by blast
        with Some Dir Cons c show ?thesis by auto
      next
        case (Symlink t)
        with Some "2.prems"(1) obtain j where j: "k = Suc j" and f: "follow fs j [] (t @ rest) = Some q"
          by (cases k) auto
        have "t @ rest = (t @ xs') @ ys" using rest by simp
        with Some Symlink j f "2.IH"
        have "\<exists>d i. i \<le> j \<and> follow fs j [] (t @ xs') = Some d \<and> follow fs i d ys = Some q"
          by blast
        then obtain d i where "i \<le> j" "follow fs j [] (t @ xs') = Some d" "follow fs i d ys = Some q"
          by blast
        with Some Symlink j Cons c show ?thesis by (auto intro!: exI [of _ d] exI [of _ i])
      qed
    qed
  qed
qed

lemma realpath_keeps_name:
  assumes "\<not> is_symlink_fs fs p" and "realpath fs p = Some q"
  shows "name q = name p"
proof (cases p rule: rev_cases)
  case Nil
  with assms(2) show ?thesis by (simp add: realpath_def)
next
  case (snoc xs c)
  from assms(2) snoc have "follow fs MAXSYMLINKS [] (xs @ [c]) = Some q" by (simp add: realpath_def)
  from follow_split [OF this refl]
  obtain d j where j: "j \<le> MAXSYMLINKS" and d: "follow fs MAXSYMLINKS [] xs = Some d"
    and l: "follow fs j d [c] = Some q" by blast
  from d snoc have ls: "lstat fs p = entry_at fs (d @ [c])" by (simp add: lstat_def realpath_def)
  from l obtain y where y: "entry_at fs (d @ [c]) = Some y" by (cases "entry_at fs (d @ [c])") auto
  with assms(1) ls have "\<And>t. y \<noteq> Symlink t" by (auto simp: is_symlink_fs_def)
  with l y have "q = d @ [c]" by (cases y) auto
  with snoc show ?thesis by (simp add: name_def)
qed

lemma is_yaml_file_name: "name p = name q \<Longrightarrow> is_yaml_file p = is_yaml_file q"
  by (simp add: is_yaml_file_def suffix_def)

lemma wf_node_entry:
  assumes "wf_node n" and "entry_at n p = Some m"
  shows "wf_node m"
  using assms
proof (induction n p rule: entry_at.induct)
  case (2 es c cs)
  then obtain n' where n': "map_of es c = Some n'" and e: "entry_at n' cs = Some m"
    by (auto split: option.splits)
  from n' have "(c, n') \<in> set es" by (rule map_of_SomeD)
  with "2.prems"(1) have "wf_node n'" by auto
  from "2.IH" [OF n' this e] show ?case .
qed auto

lemma rglob_node_entry:
  assumes "wf_node n" and "item \<in> set (rglob_node d n)"
  shows "\<exists>rel. item = d @ rel \<and> rel \<noteq> [] \<and> entry_at n rel \<noteq> None"
  using assms
proof (induction d n arbitrary: item rule: rglob_node.induct)
  case (1 d es)
  from "1.prems"(1) have dist: "distinct (map fst es)" and wfs: "\<And>e. e \<in> set es \<Longrightarrow> wf_node (snd e)"
    by auto
  have look: "map_of es (fst e) = Some (snd e)" if "e \<in> set es" for e
  proof -
    from that have "(fst e, snd e) \<in> set es" by simp
    with dist show ?thesis by (rule map_of_is_SomeI)
  qed
  from "1.prems"(2) consider e where "e \<in> set es" "item = d @ [fst e]"
    | e where "e \<in> set es" "item \<in> set (rglob_node (d @ [fst e]) (snd e))" by auto
  then show ?case
  proof cases
    case 1
    with look [OF 1(1)] show ?thesis by (auto intro!: exI [of _ "[fst e]"])
  next
    case 2
    from "1.IH" [OF 2(1) wfs [OF 2(1)] 2(2)]
    obtain rel where "item = (d @ [fst e]) @ rel" "rel \<noteq> []" "entry_at (snd e) rel \<noteq> None" by blast
    with look [OF 2(1)] show ?thesis by (auto intro!: exI [of _ "fst e # rel"])
  qed
qed auto

lemma realpath_real:
  assumes "entry_at fs p = Some x" and "\<And>t. x \<noteq> Symlink t"
  shows "realpath fs p = Some p"
  using follow_real [of fs "[]" p x MAXSYMLINKS] assms by (simp add: realpath_def)

lemma dir_is_no_symlink:
  assumes "entry_at fs p = Some (Dir es)"
  shows "\<not> is_symlink_fs fs p"
proof (cases p rule: rev_cases)
  case Nil
  with assms show ?thesis by (simp add: is_symlink_fs_def lstat_def)
next
  case (snoc xs c)
  with assms have "entry_at fs (take (length xs) p) \<noteq> None"
    using entry_at_prefix_dir [of fs p "Dir es" "length xs"] by auto
  with snoc obtain es' where x: "entry_at fs xs = Some (Dir es')"
    using entry_at_prefix_dir [of fs p "Dir es" "length xs"] assms by auto
  from realpath_real [OF x] have "realpath fs xs = Some xs" by simp
  with snoc assms show ?thesis by (simp add: is_symlink_fs_def lstat_def)
qed

lemma rglob_fs_ancestors:
  assumes wf: "wf_node fs" and root: "entry_at fs root = Some (Dir es)"
    and it: "item \<in> set (fst (rglob_fs fs root))" and k: "k < length item"
  shows "\<not> is_symlink_fs fs (take k item)"
proof -
  from realpath_real [OF root] have "stat fs root = Some (Dir es)"
    using root by (simp add: stat_def)
  with it have "item \<in> set (rglob_node root (Dir es))" by (simp add: rglob_fs_def)
  from rglob_node_entry [OF wf_node_entry [OF wf root] this]
  obtain rel x where rel: "item = root @ rel" and x: "entry_at (Dir es) rel = Some x" by auto
  with root have "entry_at fs item = Some x" by (simp add: entry_at_append)
  from entry_at_prefix_dir [OF this k] show ?thesis using dir_is_no_symlink by blast
qed

lemma dotfile_is_not_yaml:
  assumes "name p \<in> {''.yaml'', ''.yml''}"
  shows "\<not> is_yaml_file p"
proof -
  have a: "rfind ''.yaml'' (CHR ''.'') = 0" by code_simp
  have b: "rfind ''.yml'' (CHR ''.'') = 0" by code_simp
  from assms consider "name p = ''.yaml''" | "name p = ''.yml''" by auto
  then show ?thesis
  proof cases
    case 1
    then show ?thesis by (simp add: is_yaml_file_def suffix_def Let_def a lower_def)
  next
    case 2
    then show ?thesis by (simp add: is_yaml_file_def suffix_def Let_def b lower_def)
  qed
qed



text \<open>
  What the validator of \<open>ScanOptions\<close> guarantees about \<open>input_dir\<close>: it is the canonical
  path of a directory.
\<close>

lemma validated_root_is_directory:
  assumes "validate_directory_exists fs v = Inr root"
  shows "\<exists>es. entry_at fs root = Some (Dir es) \<and> stat fs root = Some (Dir es) \<and>
              realpath fs root = Some root"
proof -
  from assms obtain es where st: "stat fs v = Some (Dir es)" and rs: "resolve_fs fs v = Inr root"
    by (auto simp: validate_directory_exists_def split: option.splits node.splits sum.splits)
  from rs have rp: "realpath fs v = Some root"
    by (auto simp: resolve_fs_def split: option.splits)
  with st have e: "entry_at fs root = Some (Dir es)" by (simp add: stat_def)
  from realpath_real [OF e] have "realpath fs root = Some root" by simp
  with e show ?thesis by (simp add: stat_def)
qed


subsection \<open>Failures on the POSIX filesystem and what the handlers do with them\<close>

lemma posix_denied_flat_body: "flat_body (posix_denied fs denied) = flat_body (posix fs)"
  by (intro ext) (simp add: flat_body_def add_resolved_def posix_denied_def posix_def)






section \<open>The claims about scan\_directory\<close>




text \<open>
  C3 as amended. The file list is sorted in the order of \<open>Path\<close> objects, which compares
  the sequences of path components (each component as a string): of two paths in the
  result, the one at the smaller index is the smaller in that order, and conversely.
\<close>

theorem scan_files_sorted_by_components:
  assumes "scan_directory pf opts = Inr r"
  shows "sorted (files r) \<and>
         (\<forall>i j. i < length (files r) \<and> j < length (files r) \<longrightarrow>
                (i < j \<longleftrightarrow> files r ! i < files r ! j))"
proof -
  obtain acc e where t: "traverse pf opts = (acc, e)" by (cases "traverse pf opts")
  from scan_directory_files [OF assms] t have f: "files r = sort (snd acc)" by simp
  from traverse_invariant [OF t] have "distinct (snd acc)" by simp
  with f have d: "distinct (files r)" and s: "sorted (files r)" by simp_all
  then have ss: "sorted_wrt (<) (files r)" by (simp add: strict_sorted_iff)
  have "(i < j) = (files r ! i < files r ! j)"
    if "i < length (files r)" "j < length (files r)" for i j
  proof
    assume "i < j"
    with ss that show "files r ! i < files r ! j" by (simp add: sorted_wrt_iff_nth_less)
  next
    assume l: "files r ! i < files r ! j"
    show "i < j"
    proof (rule ccontr)
      assume "\<not> i < j"
      then consider "i = j" | "j < i" by fastforce
      then show False
      proof cases
        case 1 with l show False by simp
      next
        case 2
        with ss that have "files r ! j < files r ! i" by (simp add: sorted_wrt_iff_nth_less)
        with l show False by simp
      qed
    qed
  qed
  with s show ?thesis by blast
qed

text \<open>The theorem on \<open>fs_dash\<close>, scanned recursively.\<close>

theorem scan_files_sorted_by_components_witness:
  "scan_directory (posix fs_dash) (srv_options True) =
     Inr \<lparr>files = [[''srv'', ''app'', ''x.yaml''], [''srv'', ''app-1.yaml'']], errors = []\<rparr>
   \<and> sorted (files \<lparr>files = [[''srv'', ''app'', ''x.yaml''], [''srv'', ''app-1.yaml'']],
                    errors = []\<rparr>)"
proof -
  have s: "scan_directory (posix fs_dash) (srv_options True) =
     Inr \<lparr>files = [[''srv'', ''app'', ''x.yaml''], [''srv'', ''app-1.yaml'']], errors = []\<rparr>"
    by code_simp
  from scan_files_sorted_by_components [OF s] s show ?thesis by blast
qed

text \<open>
  C3 as stated fails: on \<open>fs_dash\<close> the result lists \<open>/srv/app/x.yaml\<close> before
  \<open>/srv/app-1.yaml\<close>, while as strings \<open>/srv/app-1.yaml\<close> is the smaller one, since \<open>-\<close>
  sorts before \<open>/\<close>.
\<close>

theorem scan_sorted_by_string_counterexample:
  "scan_directory (posix fs_dash) (srv_options True) =
     Inr \<lparr>files = [[''srv'', ''app'', ''x.yaml''], [''srv'', ''app-1.yaml'']], errors = []\<rparr>
   \<and> path_str [''srv'', ''app-1.yaml''] < path_str [''srv'', ''app'', ''x.yaml'']"
proof -
  have "scan_directory (posix fs_dash) (srv_options True) =
     Inr \<lparr>files = [[''srv'', ''app'', ''x.yaml''], [''srv'', ''app-1.yaml'']], errors = []\<rparr>"
    by code_simp
  moreover have "path_str [''srv'', ''app-1.yaml''] < path_str [''srv'', ''app'', ''x.yaml'']"
    by code_simp
  ultimately show ?thesis by simp
qed

text \<open>
  C7. In either mode the file list of a result has no repeated path, and every path in it
  is what \<open>resolve\<close> returned for an enumerated entry that is a regular file and passes
  the YAML filter.
\<close>

theorem scan_files_distinct:
  assumes "scan_directory pf opts = Inr r"
  shows "distinct (files r) \<and>
         (\<forall>q\<in>set (files r).
            \<exists>item\<in>set (fst (if recursive opts then rglob pf (input_dir opts)
                               else iterdir pf (input_dir opts))).
              is_file pf item = Inr True \<and> is_yaml_file item \<and> resolve pf item = Inr q)"
proof -
  obtain acc e where t: "traverse pf opts = (acc, e)" by (cases "traverse pf opts")
  from scan_directory_files [OF assms] t have f: "files r = sort (snd acc)" by simp
  from traverse_invariant [OF t] have "distinct (snd acc)" by simp
  with f have d: "distinct (files r)" by simp
  have "\<exists>item\<in>set (fst (if recursive opts then rglob pf (input_dir opts)
                               else iterdir pf (input_dir opts))).
              is_file pf item = Inr True \<and> is_yaml_file item \<and> resolve pf item = Inr q"
    if "q \<in> set (files r)" for q
  proof (cases "recursive opts")
    case True
    from that f have "q \<in> set (snd acc)" by simp
    from traverse_provenance_recursive [OF True t this] True show ?thesis by auto
  next
    case False
    from that f have "q \<in> set (snd acc)" by simp
    from traverse_provenance_flat [OF False t this] False show ?thesis by auto
  qed
  with d show ?thesis by blast
qed

text \<open>The theorem on a listing that yields \<open>b.yml\<close> twice.\<close>

theorem scan_files_distinct_witness:
  "scan_directory failing_listing (srv_options False) =
     Inr \<lparr>files = [[''srv'', ''a.yaml''], [''srv'', ''b.yml'']],
          errors = [([''srv''], ''OS error: [Errno 5] Input/output error'')]\<rparr>
   \<and> distinct (files \<lparr>files = [[''srv'', ''a.yaml''], [''srv'', ''b.yml'']],
          errors = [([''srv''], ''OS error: [Errno 5] Input/output error'')]\<rparr>)"
proof -
  have s: "scan_directory failing_listing (srv_options False) =
     Inr \<lparr>files = [[''srv'', ''a.yaml''], [''srv'', ''b.yml'']],
          errors = [([''srv''], ''OS error: [Errno 5] Input/output error'')]\<rparr>"
    by code_simp
  from scan_files_distinct [OF s] s show ?thesis by blast
qed

text \<open>
  C8. Two option values with the same \<open>input_dir\<close> and \<open>recursive\<close> give the same outcome
  on the same filesystem layer, whatever their \<open>format\<close> and \<open>verbosity\<close>.
\<close>

theorem scan_ignores_presentation:
  assumes "input_dir o1 = input_dir o2" and "recursive o1 = recursive o2"
  shows "scan_directory pf o1 = scan_directory pf o2"
proof -
  have t: "traverse pf o1 = traverse pf o2"
    using assms by (simp add: traverse_def)
  show ?thesis
    unfolding scan_directory_def t assms(1) by (rule refl)
qed

text \<open>The theorem for two option values that differ in both presentation fields.\<close>

theorem scan_ignores_presentation_witness:
  "input_dir (srv_options True) = input_dir ((srv_options True)\<lparr>format := Json, verbosity := Verbose\<rparr>)
   \<and> scan_directory (posix fs_cycle) (srv_options True) =
     scan_directory (posix fs_cycle) ((srv_options True)\<lparr>format := Json, verbosity := Verbose\<rparr>)
   \<and> format (srv_options True) \<noteq> format ((srv_options True)\<lparr>format := Json, verbosity := Verbose\<rparr>)"
proof -
  have a: "input_dir (srv_options True) =
      input_dir ((srv_options True)\<lparr>format := Json, verbosity := Verbose\<rparr>)" by simp
  have b: "recursive (srv_options True) =
      recursive ((srv_options True)\<lparr>format := Json, verbosity := Verbose\<rparr>)" by simp
  have c: "format (srv_options True) \<noteq>
      format ((srv_options True)\<lparr>format := Json, verbosity := Verbose\<rparr>)"
    by (simp add: srv_options_def)
  from scan_ignores_presentation [OF a b, of "posix fs_cycle"] a c show ?thesis by blast
qed



text \<open>
  C2. The recursive loop tests every element of \<open>item.parents\<close>, which runs up to the
  filesystem root: the scan root and the directories above it are tested like the
  directories below it. With the root \<open>/home/u/.cfg\<close> the recursive scan returns no file at
  all, while the non-recursive scan of the same root returns \<open>app.yaml\<close>.
\<close>

theorem hidden_root_recursive_scan_is_empty:
  "scan_directory (posix fs_hidden_root) (hidden_root_options True) =
     Inr \<lparr>files = [], errors = []\<rparr>
   \<and> scan_directory (posix fs_hidden_root) (hidden_root_options False) =
     Inr \<lparr>files = [[''home'', ''u'', ''.cfg'', ''app.yaml'']], errors = []\<rparr>
   \<and> parents [''home'', ''u'', ''.cfg'', ''app.yaml''] =
     [[''home'', ''u'', ''.cfg''], [''home'', ''u''], [''home''], []]
   \<and> is_hidden_directory [''home'', ''u'', ''.cfg'']"
proof -
  have "scan_directory (posix fs_hidden_root) (hidden_root_options True) =
     Inr \<lparr>files = [], errors = []\<rparr>" by code_simp
  moreover have "scan_directory (posix fs_hidden_root) (hidden_root_options False) =
     Inr \<lparr>files = [[''home'', ''u'', ''.cfg'', ''app.yaml'']], errors = []\<rparr>" by code_simp
  moreover have "parents [''home'', ''u'', ''.cfg'', ''app.yaml''] =
     [[''home'', ''u'', ''.cfg''], [''home'', ''u''], [''home''], []]" by code_simp
  moreover have "is_hidden_directory [''home'', ''u'', ''.cfg'']" by code_simp
  ultimately show ?thesis by simp
qed

text \<open>
  C5. In recursive mode an entry that is a symbolic link leaves the accumulators as they
  are, and every path of the result comes from an entry that is not a symbolic link. On the
  POSIX filesystem the scan returns a result for every filesystem and all options, links that
  form cycles included: \<open>rglob_node\<close> recurses on the directory tree and treats a link as a
  leaf, and \<open>follow\<close> gives up after \<open>MAXSYMLINKS\<close> links. No proper ancestor of an
  enumerated entry is a symbolic link: nothing below a linked directory is visited.
\<close>

theorem recursive_scan_skips_symlinks:
  "(is_symlink pf item = Inr True \<longrightarrow> recursive_body pf item acc = Inr acc) \<and>
   (recursive opts \<and> scan_directory pf opts = Inr r \<longrightarrow>
      (\<forall>q\<in>set (files r). \<exists>it\<in>set (fst (rglob pf (input_dir opts))).
          is_symlink pf it = Inr False \<and> resolve pf it = Inr q)) \<and>
   (\<exists>r'. scan_directory (posix fs) opts' = Inr r') \<and>
   (wf_node fs \<and> entry_at fs root = Some (Dir es) \<longrightarrow>
      (\<forall>it\<in>set (fst (rglob_fs fs root)). \<forall>k<length it. \<not> is_symlink_fs fs (take k it)))"
proof (intro conjI impI)
  assume "is_symlink pf item = Inr True"
  then show "recursive_body pf item acc = Inr acc" by (simp add: recursive_body_def)
next
  assume a: "recursive opts \<and> scan_directory pf opts = Inr r"
  obtain ac e where t: "traverse pf opts = (ac, e)" by (cases "traverse pf opts")
  from a scan_directory_files [of pf opts r] t have f: "files r = sort (snd ac)" by simp
  show "\<forall>q\<in>set (files r). \<exists>it\<in>set (fst (rglob pf (input_dir opts))).
          is_symlink pf it = Inr False \<and> resolve pf it = Inr q"
  proof
    fix q assume "q \<in> set (files r)"
    with f have "q \<in> set (snd ac)" by simp
    from traverse_provenance_recursive [OF _ t this] a
    show "\<exists>it\<in>set (fst (rglob pf (input_dir opts))).
          is_symlink pf it = Inr False \<and> resolve pf it = Inr q" by blast
  qed
next
  show "\<exists>r'. scan_directory (posix fs) opts' = Inr r'" by (rule posix_scan_returns)
next
  assume "wf_node fs \<and> entry_at fs root = Some (Dir es)"
  then show "\<forall>it\<in>set (fst (rglob_fs fs root)). \<forall>k<length it. \<not> is_symlink_fs fs (take k it)"
    using rglob_fs_ancestors [of fs root es] by blast
qed

text \<open>
  The theorem on \<open>fs_cycle\<close>, where \<open>/srv/sub/back\<close> and \<open>/srv/self\<close> point back to
  \<open>/srv\<close>.
\<close>

theorem recursive_scan_skips_symlinks_witness:
  "scan_directory (posix fs_cycle) (srv_options True) =
     Inr \<lparr>files = [[''srv'', ''app.yaml''], [''srv'', ''sub'', ''deep.yml'']], errors = []\<rparr>
   \<and> is_symlink (posix fs_cycle) [''srv'', ''sub'', ''back''] = Inr True
   \<and> recursive_body (posix fs_cycle) [''srv'', ''sub'', ''back''] ({}, []) = Inr ({}, [])
   \<and> wf_node fs_cycle
   \<and> [''srv'', ''sub'', ''deep.yml''] \<in> set (fst (rglob_fs fs_cycle [''srv'']))
   \<and> \<not> is_symlink_fs fs_cycle (take 2 [''srv'', ''sub'', ''deep.yml''])"
proof -
  have s: "scan_directory (posix fs_cycle) (srv_options True) =
     Inr \<lparr>files = [[''srv'', ''app.yaml''], [''srv'', ''sub'', ''deep.yml'']], errors = []\<rparr>"
    by code_simp
  have l: "is_symlink (posix fs_cycle) [''srv'', ''sub'', ''back''] = Inr True" by code_simp
  have w: "wf_node fs_cycle" by code_simp
  have e: "entry_at fs_cycle [''srv''] =
    Some (Dir [(''app.yaml'', File),
               (''sub'', Dir [(''back'', Symlink [''srv'']), (''deep.yml'', File)]),
               (''self'', Symlink [''srv''])])" by code_simp
  have m: "[''srv'', ''sub'', ''deep.yml''] \<in> set (fst (rglob_fs fs_cycle [''srv'']))" by code_simp
  from recursive_scan_skips_symlinks [of "posix fs_cycle" "[''srv'', ''sub'', ''back'']" "({}, [])"
      "srv_options True" _ fs_cycle _ "[''srv'']"] s l w e m
  show ?thesis by force
qed




text \<open>
  C10 as amended. \<open>is_yaml_file\<close> is false on a path whose final component is \<open>.yaml\<close> or
  \<open>.yml\<close>, so in either mode every path of the result comes from an entry with another
  name. In recursive mode on the POSIX filesystem no path of the result has such a name.
\<close>

theorem dotfile_entry_never_added:
  "(name p \<in> {''.yaml'', ''.yml''} \<longrightarrow> \<not> is_yaml_file p) \<and>
   (scan_directory pf opts = Inr r \<longrightarrow>
      (\<forall>q\<in>set (files r).
         \<exists>item\<in>set (fst (if recursive opts then rglob pf (input_dir opts)
                            else iterdir pf (input_dir opts))).
           name item \<notin> {''.yaml'', ''.yml''} \<and> resolve pf item = Inr q)) \<and>
   (recursive opts' \<and> scan_directory (posix fs) opts' = Inr r' \<longrightarrow>
      (\<forall>q\<in>set (files r'). name q \<notin> {''.yaml'', ''.yml''}))"
proof (intro conjI impI)
  assume "name p \<in> {''.yaml'', ''.yml''}"
  then show "\<not> is_yaml_file p" by (rule dotfile_is_not_yaml)
next
  assume s: "scan_directory pf opts = Inr r"
  obtain acc e where t: "traverse pf opts = (acc, e)" by (cases "traverse pf opts")
  from scan_directory_files [OF s] t have f: "files r = sort (snd acc)" by simp
  show "\<forall>q\<in>set (files r).
         \<exists>item\<in>set (fst (if recursive opts then rglob pf (input_dir opts)
                            else iterdir pf (input_dir opts))).
           name item \<notin> {''.yaml'', ''.yml''} \<and> resolve pf item = Inr q"
  proof
    fix q assume "q \<in> set (files r)"
    with f have q: "q \<in> set (snd acc)" by simp
    show "\<exists>item\<in>set (fst (if recursive opts then rglob pf (input_dir opts)
                            else iterdir pf (input_dir opts))).
           name item \<notin> {''.yaml'', ''.yml''} \<and> resolve pf item = Inr q"
    proof (cases "recursive opts")
      case True
      from traverse_provenance_recursive [OF True t q] True dotfile_is_not_yaml
      show ?thesis by auto
    next
      case False
      from traverse_provenance_flat [OF False t q] False dotfile_is_not_yaml
      show ?thesis by auto
    qed
  qed
next
  assume a: "recursive opts' \<and> scan_directory (posix fs) opts' = Inr r'"
  obtain acc e where t: "traverse (posix fs) opts' = (acc, e)" by (cases "traverse (posix fs) opts'")
  from a scan_directory_files [of "posix fs" opts' r'] t have f: "files r' = sort (snd acc)" by simp
  show "\<forall>q\<in>set (files r'). name q \<notin> {''.yaml'', ''.yml''}"
  proof
    fix q assume "q \<in> set (files r')"
    with f have q: "q \<in> set (snd acc)" by simp
    from traverse_provenance_recursive [OF _ t q] a
    obtain item where l: "is_symlink (posix fs) item = Inr False" and y: "is_yaml_file item"
      and rs: "resolve (posix fs) item = Inr q" by blast
    from l have nl: "\<not> is_symlink_fs fs item" by (simp add: posix_def)
    from rs have "realpath fs item = Some q"
      by (auto simp: posix_def resolve_fs_def split: option.splits)
    from realpath_keeps_name [OF nl this] y have "is_yaml_file q"
      using is_yaml_file_name [of q item] by simp
    then show "name q \<notin> {''.yaml'', ''.yml''}" using dotfile_is_not_yaml by blast
  qed
qed

text \<open>
  The theorem on \<open>fs_dotfile\<close>.
\<close>

theorem dotfile_entry_never_added_witness:
  "name [''srv'', ''.yaml''] \<in> {''.yaml'', ''.yml''}
   \<and> \<not> is_yaml_file [''srv'', ''.yaml'']
   \<and> scan_directory (posix fs_dotfile) (srv_options True) = Inr \<lparr>files = [], errors = []\<rparr>
   \<and> scan_directory (posix fs_dotfile) (srv_options False) =
       Inr \<lparr>files = [[''srv'', ''.yaml'']], errors = []\<rparr>
   \<and> resolve (posix fs_dotfile) [''srv'', ''settings.yaml''] = Inr [''srv'', ''.yaml'']"
proof -
  have n: "name [''srv'', ''.yaml''] \<in> {''.yaml'', ''.yml''}" by (simp add: name_def)
  have a: "scan_directory (posix fs_dotfile) (srv_options True) = Inr \<lparr>files = [], errors = []\<rparr>"
    by code_simp
  have b: "scan_directory (posix fs_dotfile) (srv_options False) =
       Inr \<lparr>files = [[''srv'', ''.yaml'']], errors = []\<rparr>" by code_simp
  have c: "resolve (posix fs_dotfile) [''srv'', ''settings.yaml''] = Inr [''srv'', ''.yaml'']"
    by code_simp
  from dotfile_entry_never_added [of "[''srv'', ''.yaml'']" "posix fs_dotfile" "srv_options False"
      "\<lparr>files = [[''srv'', ''.yaml'']], errors = []\<rparr>"] n a b c
  show ?thesis by blast
qed

text \<open>
  C10 as stated fails in non-recursive mode: on \<open>fs_dotfile\<close> the file \<open>/srv/.yaml\<close> is in
  the result, reached through the link \<open>settings.yaml\<close>.
\<close>

theorem dotfile_reached_through_link_counterexample:
  "scan_directory (posix fs_dotfile) (srv_options False) =
       Inr \<lparr>files = [[''srv'', ''.yaml'']], errors = []\<rparr>
   \<and> entry_at fs_dotfile [''srv'', ''.yaml''] = Some File
   \<and> name [''srv'', ''.yaml''] = ''.yaml''"
proof -
  have "scan_directory (posix fs_dotfile) (srv_options False) =
       Inr \<lparr>files = [[''srv'', ''.yaml'']], errors = []\<rparr>" by code_simp
  moreover have "entry_at fs_dotfile [''srv'', ''.yaml''] = Some File" by code_simp
  moreover have "name [''srv'', ''.yaml''] = ''.yaml''" by (simp add: name_def)
  ultimately show ?thesis by simp
qed

end
